theory Spec2Isabelle
  imports Main
begin

section \<open>Canvelete CLI: API client, render polling, batch, watch and profile store\<close>

subsection \<open>JavaScript values used by the client\<close>

text \<open>
  JSON payloads (\<open>dynamicData\<close>) and JavaScript truthiness, on which the client's
  \<open>if (options.x)\<close> and \<open>options.x || default\<close> idioms depend. Numbers are integers
  here (the CLI produces them with \<open>parseInt\<close>); an absent property, \<open>undefined\<close>
  and \<open>NaN\<close> are all \<open>None\<close>, since the code only ever tests them for truthiness.
\<close>

datatype json = JNull | JBool bool | JNum int | JStr string
  | JArr "json list" | JObj "(string \<times> json) list"

fun truthy :: "json \<Rightarrow> bool" where
  "truthy JNull = False"
| "truthy (JBool b) = b"
| "truthy (JNum n) = (n \<noteq> 0)"
| "truthy (JStr s) = (s \<noteq> [])"
| "truthy (JArr xs) = True"
| "truthy (JObj kvs) = True"

definition truthyStr :: "string option \<Rightarrow> bool" where
  "truthyStr v = (case v of None \<Rightarrow> False | Some s \<Rightarrow> s \<noteq> [])"

definition truthyNum :: "int option \<Rightarrow> bool" where
  "truthyNum v = (case v of None \<Rightarrow> False | Some n \<Rightarrow> n \<noteq> 0)"

definition truthyJson :: "json option \<Rightarrow> bool" where
  "truthyJson v = (case v of None \<Rightarrow> False | Some j \<Rightarrow> truthy j)"

subsection \<open>client.js: CanveleteAPIClient\<close>

record client =
  apiKey :: string
  baseUrl :: string

text \<open>
  The \<open>options\<close> argument of \<open>request\<close>: \<open>opt_params\<close> is the query string that
  \<open>URLSearchParams\<close> serialises (\<open>None\<close> when \<open>options.params\<close> is absent).
\<close>

record 'j request_options =
  opt_json :: "'j option"
  opt_params :: "string option"
  opt_binary :: bool

text \<open>What \<open>request\<close> hands to \<open>fetch\<close>, and how the response is to be decoded.\<close>

record 'j fetch_call =
  f_url :: string
  f_method :: string
  f_headers :: "(string \<times> string) list"
  f_body :: "'j option"
  f_binary :: bool

definition noOptions :: "'j request_options" where
  "noOptions = \<lparr>opt_json = None, opt_params = None, opt_binary = False\<rparr>"

definition request :: "client \<Rightarrow> string \<Rightarrow> string \<Rightarrow> 'j request_options \<Rightarrow> 'j fetch_call" where
  "request c method endpoint options =
     (let url = baseUrl c @ endpoint;
          headers = [(''Authorization'', ''Bearer '' @ apiKey c),
                     (''User-Agent'', ''canvelete-cli/2.0.0'')]
                    @ (if opt_json options \<noteq> None
                       then [(''Content-Type'', ''application/json'')] else [])
      in \<lparr>f_url = (case opt_params options of
                      None \<Rightarrow> url
                    | Some searchParams \<Rightarrow>
                        url @ (if CHR ''?'' \<in> set url then ''&'' else ''?'') @ searchParams),
          f_method = method,
          f_headers = headers,
          f_body = opt_json options,
          f_binary = opt_binary options\<rparr>)"

definition getDesign :: "client \<Rightarrow> string \<Rightarrow> 'j fetch_call" where
  "getDesign c ident = request c ''GET'' (''/api/automation/designs/'' @ ident) noOptions"

definition getTemplate :: "client \<Rightarrow> string \<Rightarrow> 'j fetch_call" where
  "getTemplate c ident = request c ''GET'' (''/api/automation/designs/'' @ ident) noOptions"

text \<open>The argument object of \<open>render\<close> and the body \<open>data\<close> it builds.\<close>

record render_options =
  designId :: "string option"
  templateId :: "string option"
  format :: "string option"
  quality :: "int option"
  dynamicData :: "json option"
  width :: "int option"
  height :: "int option"

record render_data =
  data_format :: string
  data_quality :: int
  data_designId :: "string option"
  data_templateId :: "string option"
  data_dynamicData :: "json option"
  data_width :: "int option"
  data_height :: "int option"

definition renderData :: "render_options \<Rightarrow> render_data" where
  "renderData options =
     \<lparr>data_format = (if truthyStr (format options) then the (format options) else ''png''),
      data_quality = (if truthyNum (quality options) then the (quality options) else 90),
      data_designId = (if truthyStr (designId options) then designId options else None),
      data_templateId = (if truthyStr (templateId options) then templateId options else None),
      data_dynamicData = (if truthyJson (dynamicData options) then dynamicData options else None),
      data_width = (if truthyNum (width options) then width options else None),
      data_height = (if truthyNum (height options) then height options else None)\<rparr>"

definition render :: "client \<Rightarrow> render_options \<Rightarrow> render_data fetch_call" where
  "render c options =
     request c ''POST'' ''/api/automation/render''
       \<lparr>opt_json = Some (renderData options), opt_params = None, opt_binary = True\<rparr>"

subsection \<open>renders status --wait: the polling loop\<close>

text \<open>The status object returned by \<open>getRenderStatus\<close>, as far as the loop reads it.\<close>

record render_job =
  status :: string
  outputUrl :: "string option"
  error :: "string option"

text \<open>
  How the command ends: \<open>Completed\<close> is the \<open>return\<close> after "Render completed!",
  \<open>Failed\<close> the \<open>process.exit(1)\<close> after "Render failed", \<open>Timeout\<close> the
  \<open>process.exit(1)\<close> after "Timeout waiting for render", and \<open>CheckFailed\<close> the
  \<open>catch\<close> branch taken when \<open>getRenderStatus\<close> throws.
\<close>

datatype wait_outcome = Completed render_job | Failed render_job | Timeout | CheckFailed string

definition pollInterval :: nat where
  "pollInterval = 2000"

text \<open>
  The loop reads the clock and the server. Both are inputs: for the \<open>k\<close>-th call of
  \<open>getRenderStatus\<close> (counting from 0), \<open>env k\<close> gives the milliseconds that the
  iteration takes on top of the 2000 ms sleep (the latency of the request and the
  lateness of the timer) and the response (\<open>Inl\<close> a thrown error's message).
  \<open>elapsed\<close> is \<open>Date.now() - startTime\<close> at the loop test, and the result carries
  the number of status requests issued.
\<close>

function waitLoop ::
  "(nat \<Rightarrow> nat \<times> (string + render_job)) \<Rightarrow> nat \<Rightarrow> nat \<Rightarrow> nat \<Rightarrow> wait_outcome \<times> nat" where
  "waitLoop env timeout elapsed k =
     (if elapsed < timeout then
        (case snd (env k) of
           Inl msg \<Rightarrow> (CheckFailed msg, Suc k)
         | Inr st \<Rightarrow>
             if status st = ''completed'' then (Completed st, Suc k)
             else if status st = ''failed'' then (Failed st, Suc k)
             else waitLoop env timeout (elapsed + fst (env k) + pollInterval) (Suc k))
      else (Timeout, k))"
  by pat_completeness auto
termination
  by (relation "measure (\<lambda>(env, timeout, elapsed, k). timeout - elapsed)")
     (auto simp add: pollInterval_def)

declare waitLoop.simps [simp del]

text \<open>\<open>--timeout\<close> is given in seconds: \<open>parseInt(options.timeout) * 1000\<close>.\<close>

definition waitForCompletion ::
  "(nat \<Rightarrow> nat \<times> (string + render_job)) \<Rightarrow> nat \<Rightarrow> wait_outcome \<times> nat" where
  "waitForCompletion env timeoutSeconds = waitLoop env (timeoutSeconds * 1000) 0 0"

definition terminal :: "render_job \<Rightarrow> bool" where
  "terminal st = (status st = ''completed'' \<or> status st = ''failed'')"

text \<open>Three concrete servers: one that answers after 3 s and never finishes the job, one
  that answers at once and never finishes it, and one whose third answer is
  \<open>completed\<close>.\<close>

definition processingJob :: render_job where
  "processingJob = \<lparr>status = ''processing'', outputUrl = None, error = None\<rparr>"

definition completedJob :: render_job where
  "completedJob = \<lparr>status = ''completed'', outputUrl = Some ''https://cdn/out.png'', error = None\<rparr>"

definition slowPending :: "nat \<Rightarrow> nat \<times> (string + render_job)" where
  "slowPending k = (3000, Inr processingJob)"

definition instantPending :: "nat \<Rightarrow> nat \<times> (string + render_job)" where
  "instantPending k = (0, Inr processingJob)"

definition doneAtThird :: "nat \<Rightarrow> nat \<times> (string + render_job)" where
  "doneAtThird k = (150, Inr (if k = 2 then completedJob else processingJob))"

subsection \<open>batch-render: the sequential loop\<close>





text \<open>\<open>path.join\<close> for a directory and an entry name, up to normalisation of the
  directory part (\<open>'.'\<close> contributes nothing).\<close>

definition pathJoin :: "string \<Rightarrow> string \<Rightarrow> string" where
  "pathJoin dir name = (if dir = ''.'' then name else dir @ ''/'' @ name)"


















subsection \<open>config.js and commands/profiles.js: the credential stores\<close>

text \<open>A stored profile, as \<open>profiles add\<close> writes it.\<close>

record profile =
  profile_apiKey :: string
  profile_description :: string
  profile_baseUrl :: string
  profile_createdAt :: string

text \<open>
  \<open>allProfiles\<close> is a plain object read back from JSON, so \<open>allProfiles[name]\<close> finds
  an own property, or else whatever \<open>Object.prototype\<close> provides under that name
  (a function, or the prototype itself for \<open>__proto__\<close>: truthy, and without an
  \<open>apiKey\<close>), or else \<open>undefined\<close>.
\<close>

datatype 'a js_prop = Undefined | Own 'a | Inherited

definition objectPrototypeKeys :: "string list" where
  "objectPrototypeKeys =
     [''constructor'', ''__proto__'', ''hasOwnProperty'', ''isPrototypeOf'',
      ''propertyIsEnumerable'', ''toLocaleString'', ''toString'', ''valueOf'',
      ''__defineGetter__'', ''__defineSetter__'', ''__lookupGetter__'', ''__lookupSetter__'']"

definition getProp :: "(string \<rightharpoonup> 'a) \<Rightarrow> string \<Rightarrow> 'a js_prop" where
  "getProp obj key =
     (case obj key of
        Some v \<Rightarrow> Own v
      | None \<Rightarrow> if key \<in> set objectPrototypeKeys then Inherited else Undefined)"

text \<open>
  The two Conf stores and the environment: \<open>envApiKey\<close> is
  \<open>process.env.CANVELETE_API_KEY\<close>, \<open>configApiKey\<close> is \<open>config.get('apiKey')\<close>
  (a string, \<open>''\<close> by default), \<open>profiles\<close> and \<open>activeProfile\<close> are the two keys of
  \<open>profilesConfig\<close>.
\<close>

record store =
  envApiKey :: "string option"
  configApiKey :: string
  profiles :: "string \<rightharpoonup> profile"
  activeProfile :: string

definition getApiKey :: "store \<Rightarrow> string" where
  "getApiKey s =
     (case envApiKey s of
        Some envKey \<Rightarrow> if envKey \<noteq> [] then envKey else configApiKey s
      | None \<Rightarrow> configApiKey s)"

definition setApiKey :: "string \<Rightarrow> store \<Rightarrow> store" where
  "setApiKey key s = s\<lparr>configApiKey := key\<rparr>"

definition getProfileApiKey :: "store \<Rightarrow> string" where
  "getProfileApiKey s =
     (case getProp (profiles s) (activeProfile s) of
        Own p \<Rightarrow> if profile_apiKey p \<noteq> [] then profile_apiKey p else getApiKey s
      | Inherited \<Rightarrow> getApiKey s
      | Undefined \<Rightarrow> getApiKey s)"

text \<open>
  \<open>profiles use <name>\<close>. The result is what the command raised, if anything, and the
  stores it leaves behind. \<open>NotFound\<close> is the \<open>Profile "name" not found\<close> exit;
  \<open>SetUndefined\<close> is the \<open>TypeError\<close> with which Conf's \<open>set\<close> rejects the value
  \<open>undefined\<close>, raised by \<open>setApiKey(allProfiles[name].apiKey)\<close> after
  \<open>activeProfile\<close> has been written.
\<close>

datatype cli_error = NotFound string | SetUndefined

definition profilesUse :: "string \<Rightarrow> store \<Rightarrow> cli_error option \<times> store" where
  "profilesUse name s =
     (case getProp (profiles s) name of
        Undefined \<Rightarrow> (Some (NotFound name), s)
      | Own p \<Rightarrow> (None, setApiKey (profile_apiKey p) (s\<lparr>activeProfile := name\<rparr>))
      | Inherited \<Rightarrow> (Some SetUndefined, s\<lparr>activeProfile := name\<rparr>))"

text \<open>
  The resolution order in the specification's words: the environment override, then
  the active profile's stored key, then the legacy single-key config field.
\<close>

definition getEffectiveApiKey_spec :: "store \<Rightarrow> string" where
  "getEffectiveApiKey_spec s =
     (case envApiKey s of
        Some envKey \<Rightarrow>
          if envKey \<noteq> [] then envKey
          else (case profiles s (activeProfile s) of
                  Some p \<Rightarrow> if profile_apiKey p \<noteq> [] then profile_apiKey p else configApiKey s
                | None \<Rightarrow> configApiKey s)
      | None \<Rightarrow>
          (case profiles s (activeProfile s) of
             Some p \<Rightarrow> if profile_apiKey p \<noteq> [] then profile_apiKey p else configApiKey s
           | None \<Rightarrow> configApiKey s))"

text \<open>The config field holds the active profile's key (as it does right after a switch).\<close>

definition cacheCoherent :: "store \<Rightarrow> bool" where
  "cacheCoherent s =
     (case profiles s (activeProfile s) of
        Some p \<Rightarrow> profile_apiKey p = [] \<or> configApiKey s = profile_apiKey p
      | None \<Rightarrow> True)"

text \<open>Concrete stores: a fresh installation, and one with a profile \<open>prod\<close>.\<close>

definition prodProfile :: profile where
  "prodProfile = \<lparr>profile_apiKey = ''cvt_prod'', profile_description = '''',
                   profile_baseUrl = ''https://www.canvelete.com'',
                   profile_createdAt = ''2025-01-01T00:00:00.000Z''\<rparr>"

definition freshStore :: store where
  "freshStore = \<lparr>envApiKey = None, configApiKey = '''', profiles = Map.empty,
                  activeProfile = ''default''\<rparr>"

definition prodStore :: store where
  "prodStore = \<lparr>envApiKey = None, configApiKey = ''cvt_legacy'',
                 profiles = [''prod'' \<mapsto> prodProfile], activeProfile = ''default''\<rparr>"

subsection \<open>watch-dir: processing the JSON files of a directory\<close>

text \<open>\<open>s.endsWith(suffix)\<close> and \<open>path.basename\<close> (the part after the last separator,
  trailing separators ignored).\<close>

definition endsWith :: "string \<Rightarrow> string \<Rightarrow> bool" where
  "endsWith s suffix =
     (length suffix \<le> length s \<and> drop (length s - length suffix) s = suffix)"

definition basename :: "string \<Rightarrow> string" where
  "basename p =
     rev (takeWhile (\<lambda>ch. ch \<noteq> CHR ''/'') (dropWhile (\<lambda>ch. ch = CHR ''/'') (rev p)))"

text \<open>
  The session state: the \<open>processedFiles\<close> set, and \<open>started\<close>, the paths for which
  \<open>processFile\<close> went past its two guards and entered the \<open>try\<close> block (read, parse,
  render, write, optional delete), oldest first. The \<open>try\<close> block runs across an
  \<open>await\<close> and never touches \<open>processedFiles\<close>; the guards and the \<open>add\<close> run
  before it without interruption.
\<close>

record dir_state =
  processedFiles :: "string set"
  started :: "string list"

definition processFile :: "string \<Rightarrow> dir_state \<Rightarrow> dir_state" where
  "processFile filePath s =
     (let fileName = basename filePath
      in if filePath \<in> processedFiles s then s
         else if \<not> endsWith fileName ''.json'' then s
         else s\<lparr>processedFiles := insert filePath (processedFiles s),
                 started := started s @ [filePath]\<rparr>)"

text \<open>\<open>listing\<close> is what \<open>readdirSync(directory)\<close> returned.\<close>

definition existingFiles :: "string \<Rightarrow> string list \<Rightarrow> string list" where
  "existingFiles directory listing =
     map (pathJoin directory) (filter (\<lambda>f. endsWith f ''.json'') listing)"

definition startup :: "string \<Rightarrow> string list \<Rightarrow> dir_state" where
  "startup directory listing =
     foldl (\<lambda>s file. processFile file s)
       \<lparr>processedFiles = {}, started = []\<rparr> (existingFiles directory listing)"

text \<open>
  One call of the \<open>fs.watch\<close> callback: the reported file name (\<open>None\<close> when the
  platform gives none) and what \<open>existsSync\<close> answers for it. A qualifying event
  schedules \<open>processFile\<close> 100 ms later; the delays are equal, so the calls happen in
  the order of the events.
\<close>

definition onDirEvent :: "string \<Rightarrow> string option \<times> bool \<Rightarrow> dir_state \<Rightarrow> dir_state" where
  "onDirEvent directory ev s =
     (case fst ev of
        None \<Rightarrow> s
      | Some filename \<Rightarrow>
          if filename \<noteq> [] \<and> endsWith filename ''.json''
          then (let filePath = pathJoin directory filename
                in if snd ev then processFile filePath s else s)
          else s)"

text \<open>The command: the startup pass, and only then the watcher.\<close>

definition watchDir :: "string \<Rightarrow> string list \<Rightarrow> (string option \<times> bool) list \<Rightarrow> dir_state" where
  "watchDir directory listing events =
     foldl (\<lambda>s ev. onDirEvent directory ev s) (startup directory listing) events"

subsection \<open>watch: debounced re-rendering of one data file\<close>

text \<open>
  The session state of \<open>watch <dataFile>\<close>, together with the parts of the runtime
  and of the file system that the handler reads: the clock (\<open>now\<close>, in ms), the content
  of the data file, the event loop's armed timers (handle and due time), and the
  \<open>client.render\<close> calls that are awaiting their response (arrival time and whether
  the call succeeds). \<open>debounceTimer\<close> is the variable of that name (\<open>None\<close> for
  \<open>null\<close>); \<open>reads\<close> lists what \<open>readFileSync\<close> returned in each call of
  \<open>render()\<close>, oldest first.
\<close>

record watch_state =
  now :: nat
  fileContent :: string
  debounceTimer :: "nat option"
  timers :: "(nat \<times> nat) list"
  nextHandle :: nat
  inflight :: "(nat \<times> bool) list"
  issued :: nat
  reads :: "string list"
  renderCount :: nat

text \<open>
  What the session cannot decide itself: whether \<open>JSON.parse\<close> accepts a content, and
  for the \<open>k\<close>-th \<open>client.render\<close> call how long the response takes and whether it is
  a success.
\<close>

record watch_env =
  validJson :: "string \<Rightarrow> bool"
  network :: "nat \<Rightarrow> nat \<times> bool"

text \<open>Node's timers: a delay below 1 or above 2147483647 is set to 1.\<close>

definition timerDelay :: "nat \<Rightarrow> nat" where
  "timerDelay ms = (if ms < 1 \<or> 2147483647 < ms then 1 else ms)"

definition setTimeout :: "nat \<Rightarrow> watch_state \<Rightarrow> nat \<times> watch_state" where
  "setTimeout ms s =
     (nextHandle s,
      s\<lparr>timers := timers s @ [(nextHandle s, now s + timerDelay ms)],
        nextHandle := nextHandle s + 1\<rparr>)"

definition clearTimeout :: "nat \<Rightarrow> watch_state \<Rightarrow> watch_state" where
  "clearTimeout h s = s\<lparr>timers := filter (\<lambda>tm. fst tm \<noteq> h) (timers s)\<rparr>"

text \<open>
  \<open>render()\<close> up to its \<open>await\<close>: read the file, parse it (a parse error is caught and
  logged, and the call ends), issue the render request. Nothing is tested before the
  request is issued.
\<close>

definition watchRender :: "watch_env \<Rightarrow> watch_state \<Rightarrow> watch_state" where
  "watchRender env s =
     (let content = fileContent s;
          s1 = s\<lparr>reads := reads s @ [content]\<rparr>
      in if validJson env content
         then s1\<lparr>inflight := inflight s1 @ [(now s + fst (network env (issued s)),
                                              snd (network env (issued s)))],
                 issued := issued s + 1\<rparr>
         else s1)"

text \<open>
  \<open>render()\<close> after its \<open>await\<close>, for every response that has arrived: a success
  increments \<open>renderCount\<close> and writes the output, a failure is caught and logged.
\<close>

definition deliverResponses :: "watch_state \<Rightarrow> watch_state" where
  "deliverResponses s =
     s\<lparr>inflight := filter (\<lambda>r. \<not> fst r \<le> now s) (inflight s),
       renderCount := renderCount s + length (filter (\<lambda>r. fst r \<le> now s \<and> snd r) (inflight s))\<rparr>"

text \<open>The event loop runs the callback of every timer that is due: here \<open>render\<close>.\<close>

definition fireTimers :: "watch_env \<Rightarrow> watch_state \<Rightarrow> watch_state" where
  "fireTimers env s =
     foldl (\<lambda>s' tm. watchRender env s')
       (s\<lparr>timers := filter (\<lambda>tm. \<not> snd tm \<le> now s) (timers s)\<rparr>)
       (filter (\<lambda>tm. snd tm \<le> now s) (timers s))"

text \<open>One millisecond passes: timers phase, then the responses that have arrived.\<close>

definition tick :: "watch_env \<Rightarrow> watch_state \<Rightarrow> watch_state" where
  "tick env s = deliverResponses (fireTimers env (s\<lparr>now := now s + 1\<rparr>))"

text \<open>The \<open>fs.watch\<close> callback.\<close>

definition watchCallback :: "nat \<Rightarrow> string \<Rightarrow> watch_state \<Rightarrow> watch_state" where
  "watchCallback debounceMs eventType s =
     (if eventType = ''change''
      then (let s1 = (case debounceTimer s of Some h \<Rightarrow> clearTimeout h s | None \<Rightarrow> s);
                r = setTimeout debounceMs s1
            in (snd r)\<lparr>debounceTimer := Some (fst r)\<rparr>)
      else s)"

text \<open>
  What happens to a running session: a millisecond passes, or the file system reports
  an event of the given type on the data file, whose content is then the given one.
\<close>

datatype watch_input = Tick | FsEvent string string

fun watchStep :: "watch_env \<Rightarrow> nat \<Rightarrow> watch_state \<Rightarrow> watch_input \<Rightarrow> watch_state" where
  "watchStep env debounceMs s Tick = tick env s"
| "watchStep env debounceMs s (FsEvent eventType content) =
     watchCallback debounceMs eventType (s\<lparr>fileContent := content\<rparr>)"

definition watchRun :: "watch_env \<Rightarrow> nat \<Rightarrow> watch_input list \<Rightarrow> watch_state \<Rightarrow> watch_state" where
  "watchRun env debounceMs inputs s = foldl (watchStep env debounceMs) s inputs"

text \<open>
  The start of the session: \<open>await render()\<close>, the initial render, is over (its response
  has arrived) when \<open>fs.watch\<close> is registered.
\<close>

definition watchStart :: "watch_env \<Rightarrow> string \<Rightarrow> watch_state" where
  "watchStart env content =
     (let s = watchRender env
                \<lparr>now = 0, fileContent = content, debounceTimer = None, timers = [],
                 nextHandle = 0, inflight = [], issued = 0, reads = [], renderCount = 0\<rparr>
      in deliverResponses (s\<lparr>now := foldr max (map fst (inflight s)) (now s)\<rparr>))"

text \<open>A server that takes 10 ms for every render, and a parser that accepts everything.\<close>

definition slowServer :: watch_env where
  "slowServer = \<lparr>validJson = (\<lambda>content. True), network = (\<lambda>k. (10, True))\<rparr>"

definition fastServer :: watch_env where
  "fastServer = \<lparr>validJson = (\<lambda>content. True), network = (\<lambda>k. (1, True))\<rparr>"

text \<open>
  The shape of every reachable session state when each render response arrives in less
  than \<open>delay\<close> ms: at most one timer is armed and \<open>debounceTimer\<close> holds its handle,
  at most one render is in flight, and its response is due before the armed timer.
\<close>

definition watchInv :: "nat \<Rightarrow> watch_state \<Rightarrow> bool" where
  "watchInv delay s =
     (length (timers s) \<le> 1
      \<and> (\<forall>tm \<in> set (timers s). debounceTimer s = Some (fst tm) \<and> now s < snd tm)
      \<and> length (inflight s) \<le> 1
      \<and> (\<forall>r \<in> set (inflight s).
            now s < fst r \<and> fst r < now s + delay
            \<and> (\<forall>tm \<in> set (timers s). fst r < snd tm)))"

definition isChange :: "watch_input \<Rightarrow> bool" where
  "isChange inp = (case inp of Tick \<Rightarrow> False | FsEvent eventType content \<Rightarrow> eventType = ''change'')"

section \<open>Properties\<close>

subsection \<open>API client\<close>

text \<open>
  C10. For every id, \<open>getTemplate\<close> issues exactly the request that \<open>getDesign\<close> issues:
  a GET of \<open>/api/automation/designs/{id}\<close> under the client's base URL, with the same
  headers and no body; the URL is the design-detail one, and no template-detail endpoint
  (\<open>/api/automation/templates/{id}\<close>) is used.
\<close>

theorem getTemplate_eq_getDesign:
  "(getTemplate c ident :: 'j fetch_call) = getDesign c ident
   \<and> f_method (getTemplate c ident :: 'j fetch_call) = ''GET''
   \<and> f_url (getTemplate c ident :: 'j fetch_call) = baseUrl c @ ''/api/automation/designs/'' @ ident
   \<and> f_url (getTemplate c ident :: 'j fetch_call) \<noteq> baseUrl c @ ''/api/automation/templates/'' @ ident
   \<and> f_body (getTemplate c ident :: 'j fetch_call) = None"
  by (simp add: getTemplate_def getDesign_def request_def noOptions_def)

text \<open>
  C9 (as stated, refuted). The claim says every quality outside [1,100] reaches the server
  unmodified. Quality 0 is outside [1,100], yet \<open>options.quality || 90\<close> sends 90.
\<close>

theorem render_quality_zero_counterexample:
  "f_body (render \<lparr>apiKey = ''k'', baseUrl = ''https://www.canvelete.com''\<rparr>
      \<lparr>designId = Some ''d1'', templateId = None, format = Some ''png'', quality = Some 0,
       dynamicData = None, width = None, height = None\<rparr>)
   = Some \<lparr>data_format = ''png'', data_quality = 90, data_designId = Some ''d1'',
           data_templateId = None, data_dynamicData = None,
           data_width = None, data_height = None\<rparr>"
  by (simp add: render_def request_def renderData_def truthyStr_def truthyNum_def truthyJson_def)

text \<open>
  C9 (amended). The body posted by \<open>render\<close> carries every non-zero quality unmodified,
  whether or not it lies in [1,100] (no clamping); a quality of 0, like a missing one,
  is replaced by the default 90. Width and height are left out of the body when they are
  not provided, and the body never carries a width or height of 0.
\<close>

theorem render_quality_passthrough:
  "\<exists>d. f_body (render c options) = Some d
     \<and> (\<forall>q. quality options = Some q \<and> q \<noteq> 0 \<longrightarrow> data_quality d = q)
     \<and> (quality options = Some 0 \<or> quality options = None \<longrightarrow> data_quality d = 90)
     \<and> (width options = None \<longrightarrow> data_width d = None)
     \<and> (height options = None \<longrightarrow> data_height d = None)
     \<and> data_width d \<noteq> Some 0 \<and> data_height d \<noteq> Some 0"
  by (auto simp add: render_def request_def renderData_def truthyNum_def)

theorem render_quality_passthrough_witness:
  "\<exists>d. f_body (render \<lparr>apiKey = ''k'', baseUrl = ''https://www.canvelete.com''\<rparr>
            \<lparr>designId = Some ''d1'', templateId = None, format = Some ''jpg'',
             quality = Some 150, dynamicData = None, width = None, height = Some 600\<rparr>) = Some d
     \<and> data_quality d = 150 \<and> data_width d = None \<and> data_height d = Some 600"
  using render_quality_passthrough
    [of "\<lparr>apiKey = ''k'', baseUrl = ''https://www.canvelete.com''\<rparr>"
        "\<lparr>designId = Some ''d1'', templateId = None, format = Some ''jpg'',
          quality = Some 150, dynamicData = None, width = None, height = Some 600\<rparr>"]
  by (auto simp add: render_def request_def renderData_def truthyNum_def)

subsection \<open>Polling loop\<close>

lemma waitLoop_pending:
  "elapsed < timeout \<Longrightarrow> snd (env k) = Inr st \<Longrightarrow> \<not> terminal st \<Longrightarrow>
   waitLoop env timeout elapsed k
     = waitLoop env timeout (elapsed + fst (env k) + pollInterval) (Suc k)"
  by (subst waitLoop.simps) (simp add: terminal_def)

lemma waitLoop_expired:
  "\<not> elapsed < timeout \<Longrightarrow> waitLoop env timeout elapsed k = (Timeout, k)"
  by (subst waitLoop.simps) simp

lemma waitLoop_terminal:
  "elapsed < timeout \<Longrightarrow> snd (env k) = Inr st \<Longrightarrow> terminal st \<Longrightarrow>
   waitLoop env timeout elapsed k
     = (if status st = ''completed'' then Completed st else Failed st, Suc k)"
  by (subst waitLoop.simps) (auto simp add: terminal_def)

lemma processingJob_nonterminal: "\<not> terminal processingJob"
  by (simp add: terminal_def processingJob_def)

lemma completedJob_terminal: "terminal completedJob" "status completedJob = ''completed''"
  by (simp_all add: terminal_def completedJob_def)

lemma waitLoop_terminal_last:
  "waitLoop env timeout elapsed k = (out, n) \<Longrightarrow> k \<le> j \<Longrightarrow> j < n \<Longrightarrow>
   snd (env j) = Inr st \<Longrightarrow> terminal st \<Longrightarrow>
   Suc j = n \<and> out = (if status st = ''completed'' then Completed st else Failed st)"
proof (induction env timeout elapsed k rule: waitLoop.induct)
  case (1 env timeout elapsed k)
  show ?case
  proof (cases "elapsed < timeout")
    case False
    with "1.prems" show ?thesis by (simp add: waitLoop_expired)
  next
    case True
    show ?thesis
    proof (cases "snd (env k)")
      case (Inl msg)
      with True "1.prems" have "n = Suc k"
        by (simp add: waitLoop.simps[of env timeout elapsed k])
      with "1.prems" have "j = k" by simp
      with Inl "1.prems" show ?thesis by simp
    next
      case (Inr st')
      show ?thesis
      proof (cases "terminal st'")
        case t: True
        from "1.prems"(1) have
          res: "n = Suc k" "out = (if status st' = ''completed'' then Completed st' else Failed st')"
          by (simp_all add: waitLoop_terminal[where env=env and k=k, OF True Inr t])
        with "1.prems" have jk: "j = k" by simp
        with Inr "1.prems" have "st = st'" by simp
        with res jk show ?thesis by simp
      next
        case nt: False
        from "1.prems"(1) have
          rec: "waitLoop env timeout (elapsed + fst (env k) + pollInterval) (Suc k) = (out, n)"
          by (simp add: waitLoop_pending[where env=env and k=k, OF True Inr nt])
        from nt Inr "1.prems" have "j \<noteq> k" by auto
        with "1.prems" have "Suc k \<le> j" by simp
        from "1.IH"[OF True Inr _ _ rec this] nt "1.prems" show ?thesis
          by (simp add: terminal_def)
      qed
    qed
  qed
qed

text \<open>
  C2. The wait loop always ends, and whichever status request observes \<open>completed\<close> or
  \<open>failed\<close> is the last one issued: the command ends there with that very job
  (\<open>Completed\<close> or \<open>Failed\<close>), and no request follows a terminal status.
\<close>

theorem waitForCompletion_stops_at_terminal:
  "\<exists>out n. waitForCompletion env timeoutSeconds = (out, n)
     \<and> (\<forall>j st. j < n \<and> snd (env j) = Inr st \<and> terminal st \<longrightarrow>
           Suc j = n \<and> out = (if status st = ''completed'' then Completed st else Failed st))"
proof -
  obtain out n where run: "waitForCompletion env timeoutSeconds = (out, n)"
    by (cases "waitForCompletion env timeoutSeconds")
  then have "waitLoop env (timeoutSeconds * 1000) 0 0 = (out, n)"
    by (simp add: waitForCompletion_def)
  from waitLoop_terminal_last[OF this] run show ?thesis by blast
qed

lemma doneAtThird_run: "waitForCompletion doneAtThird 300 = (Completed completedJob, 3)"
proof -
  have s0: "waitLoop doneAtThird 300000 0 0 = waitLoop doneAtThird 300000 2150 (Suc 0)"
    using waitLoop_pending[where env=doneAtThird and k=0 and st=processingJob
        and elapsed=0 and timeout=300000]
    by (simp add: doneAtThird_def processingJob_nonterminal pollInterval_def)
  have s1: "waitLoop doneAtThird 300000 2150 (Suc 0)
              = waitLoop doneAtThird 300000 4300 (Suc (Suc 0))"
    using waitLoop_pending[where env=doneAtThird and k="Suc 0" and st=processingJob
        and elapsed=2150 and timeout=300000]
    by (simp add: doneAtThird_def processingJob_nonterminal pollInterval_def)
  have s2: "waitLoop doneAtThird 300000 4300 (Suc (Suc 0)) = (Completed completedJob, 3)"
    using waitLoop_terminal[where env=doneAtThird and k="Suc (Suc 0)" and st=completedJob
        and elapsed=4300 and timeout=300000]
    by (simp add: doneAtThird_def completedJob_terminal numeral_3_eq_3)
  have "waitForCompletion doneAtThird 300 = waitLoop doneAtThird 300000 0 0"
    by (simp add: waitForCompletion_def)
  with s0 s1 s2 show ?thesis by simp
qed

theorem waitForCompletion_stops_at_terminal_witness:
  "waitForCompletion doneAtThird 300 = (Completed completedJob, 3)
   \<and> snd (doneAtThird 2) = Inr completedJob \<and> terminal completedJob"
proof -
  have third: "snd (doneAtThird 2) = Inr completedJob" by (simp add: doneAtThird_def)
  from waitForCompletion_stops_at_terminal [of doneAtThird 300] obtain out n where
    run: "waitForCompletion doneAtThird 300 = (out, n)" and
    last: "\<forall>j st. j < n \<and> snd (doneAtThird j) = Inr st \<and> terminal st \<longrightarrow>
             Suc j = n \<and> out = (if status st = ''completed'' then Completed st else Failed st)"
    by blast
  from run doneAtThird_run have n: "n = 3" by simp
  with last third completedJob_terminal have "out = Completed completedJob"
    by (metis (no_types, lifting) lessI numeral_3_eq_3 numeral_2_eq_2)
  with run n third completedJob_terminal(1) show ?thesis by simp
qed

lemma ceil_step:
  fixes p :: nat
  assumes "0 < p" "e < t"
  shows "(t - e + (p - 1)) div p = Suc ((t - (e + p) + (p - 1)) div p)"
proof (cases "t - e \<le> p")
  case True
  with assms have "p * 1 \<le> t - e + (p - 1)" "t - e + (p - 1) < p * Suc 1" by auto
  then have "(t - e + (p - 1)) div p = 1"
    by (rule div_nat_eqI)
  moreover from True have "t - (e + p) = 0" by simp
  ultimately show ?thesis using assms by simp
next
  case False
  then have h: "t - e + (p - 1) = (t - (e + p) + (p - 1)) + p" by simp
  have "(y + p) div p = Suc (y div p)" for y using assms(1) by (simp add: div_add_self2)
  then show ?thesis by (simp only: h)
qed

lemma waitLoop_timeout:
  "\<forall>j. \<exists>st. snd (env j) = Inr st \<and> \<not> terminal st \<Longrightarrow>
   \<exists>n. waitLoop env timeout elapsed k = (Timeout, n) \<and> k \<le> n
     \<and> (elapsed < timeout \<longrightarrow> k < n)
     \<and> (k < n \<longrightarrow> elapsed + (n - Suc k) * pollInterval < timeout)
     \<and> ((\<forall>j. fst (env j) = 0) \<longrightarrow>
          n = k + (timeout - elapsed + (pollInterval - 1)) div pollInterval)"
proof (induction env timeout elapsed k rule: waitLoop.induct)
  case (1 env timeout elapsed k)
  from "1.prems" obtain st where st: "snd (env k) = Inr st" "\<not> terminal st" by blast
  show ?case
  proof (cases "elapsed < timeout")
    case False
    then show ?thesis by (simp add: waitLoop_expired pollInterval_def)
  next
    case True
    from st have nt: "status st \<noteq> ''completed''" "status st \<noteq> ''failed''"
      by (simp_all add: terminal_def)
    from "1.IH"[OF True st(1) nt "1.prems"] obtain n where
      n: "waitLoop env timeout (elapsed + fst (env k) + pollInterval) (Suc k) = (Timeout, n)"
         "Suc k \<le> n"
         "Suc k < n \<longrightarrow>
            elapsed + fst (env k) + pollInterval + (n - Suc (Suc k)) * pollInterval < timeout"
         "(\<forall>j. fst (env j) = 0) \<longrightarrow>
            n = Suc k + (timeout - (elapsed + fst (env k) + pollInterval) + (pollInterval - 1))
                          div pollInterval"
      by blast
    from n(1) have eq: "waitLoop env timeout elapsed k = (Timeout, n)"
      by (simp add: waitLoop_pending[where env=env and k=k, OF True st])
    have b: "elapsed + (n - Suc k) * pollInterval < timeout"
    proof (cases "Suc k < n")
      case True
      then obtain m where m: "n = Suc (Suc k) + m" by (metis less_iff_Suc_add add_Suc)
      with n(3) True show ?thesis by (simp add: pollInterval_def)
    next
      case False
      with n(2) have "n = Suc k" by simp
      with \<open>elapsed < timeout\<close> show ?thesis by simp
    qed
    have c: "(\<forall>j. fst (env j) = 0) \<longrightarrow>
               n = k + (timeout - elapsed + (pollInterval - 1)) div pollInterval"
    proof
      assume z: "\<forall>j. fst (env j) = 0"
      with n(4) have
        "n = Suc k + (timeout - (elapsed + pollInterval) + (pollInterval - 1)) div pollInterval"
        by simp
      moreover have "0 < pollInterval" by (simp add: pollInterval_def)
      ultimately show "n = k + (timeout - elapsed + (pollInterval - 1)) div pollInterval"
        using ceil_step[of pollInterval elapsed timeout] True by simp
    qed
    from eq n(2) b c show ?thesis by auto
  qed
qed

lemma slowPending_step:
  "elapsed < timeout \<Longrightarrow>
   waitLoop slowPending timeout elapsed k
     = waitLoop slowPending timeout (elapsed + 3000 + pollInterval) (Suc k)"
  using waitLoop_pending[where env=slowPending and k=k and st=processingJob
      and elapsed=elapsed and timeout=timeout]
  by (simp add: slowPending_def processingJob_nonterminal)

lemma slowPending_run: "waitForCompletion slowPending 10 = (Timeout, 2)"
  by (simp add: waitForCompletion_def slowPending_step waitLoop_expired pollInterval_def
      numeral_2_eq_2)

theorem waitForCompletion_poll_count_counterexample:
  "waitForCompletion slowPending 10 = (Timeout, 2)
   \<and> snd (slowPending 0) = Inr processingJob \<and> snd (slowPending 1) = Inr processingJob
   \<and> \<not> terminal processingJob
   \<and> (10 * 1000) div pollInterval = 5 \<and> \<not> (5 - 1 \<le> (2::nat))"
  by (simp add: slowPending_run slowPending_def processingJob_nonterminal pollInterval_def)

text \<open>
  C3 (amended). When every status request is answered with a non-terminal status, the
  wait ends in \<open>Timeout\<close>. Successive requests are at least pollInterval = 2000 ms apart
  (the sleep), so at most \<open>\<lceil>timeoutMs / 2000\<rceil>\<close> requests are issued, and at least one
  when the timeout is positive. The time a request takes counts against the timeout, so
  there is no lower bound near timeoutMs / 2000 in general; when every answer arrives at
  once the count is exactly \<open>\<lceil>timeoutMs / 2000\<rceil>\<close>, within one of timeoutMs / 2000.
\<close>

theorem waitForCompletion_timeout:
  assumes "\<forall>j. \<exists>st. snd (env j) = Inr st \<and> \<not> terminal st"
  shows "\<exists>n. waitForCompletion env timeoutSeconds = (Timeout, n)
     \<and> (0 < timeoutSeconds \<longrightarrow> 0 < n)
     \<and> n \<le> (timeoutSeconds * 1000 + (pollInterval - 1)) div pollInterval
     \<and> ((\<forall>j. fst (env j) = 0) \<longrightarrow>
          n = (timeoutSeconds * 1000 + (pollInterval - 1)) div pollInterval
          \<and> timeoutSeconds * 1000 div pollInterval \<le> n
          \<and> n \<le> timeoutSeconds * 1000 div pollInterval + 1)"
proof -
  let ?t = "timeoutSeconds * 1000"
  from waitLoop_timeout[OF assms, of ?t 0 0] obtain n where
    n: "waitLoop env ?t 0 0 = (Timeout, n)"
       "0 < ?t \<longrightarrow> 0 < n"
       "0 < n \<longrightarrow> (n - Suc 0) * pollInterval < ?t"
       "(\<forall>j. fst (env j) = 0) \<longrightarrow> n = (?t + (pollInterval - 1)) div pollInterval"
    by auto
  have p: "0 < pollInterval" by (simp add: pollInterval_def)
  have ub: "n \<le> (?t + (pollInterval - 1)) div pollInterval"
  proof (cases n)
    case 0
    then show ?thesis by simp
  next
    case (Suc m)
    with n(3) have "m * pollInterval < ?t" by simp
    with p have "Suc m * pollInterval \<le> ?t + (pollInterval - 1)" by simp
    then have "Suc m * pollInterval div pollInterval \<le> (?t + (pollInterval - 1)) div pollInterval"
      by (rule div_le_mono)
    with p Suc show ?thesis by simp
  qed
  have lo: "?t div pollInterval \<le> (?t + (pollInterval - 1)) div pollInterval"
    by (rule div_le_mono) simp
  have "?t + (pollInterval - 1) \<le> ?t + pollInterval" by simp
  then have "(?t + (pollInterval - 1)) div pollInterval \<le> (?t + pollInterval) div pollInterval"
    by (rule div_le_mono)
  with p have hi: "(?t + (pollInterval - 1)) div pollInterval \<le> ?t div pollInterval + 1"
    by (simp add: div_add_self2)
  from n(1) have "waitForCompletion env timeoutSeconds = (Timeout, n)"
    by (simp add: waitForCompletion_def)
  with n(2,4) ub lo hi show ?thesis by auto
qed

lemma instantPending_nonterminal:
  "\<forall>j. \<exists>st. snd (instantPending j) = Inr st \<and> \<not> terminal st"
  by (simp add: instantPending_def processingJob_nonterminal)

theorem waitForCompletion_timeout_witness:
  "(\<forall>j. \<exists>st. snd (instantPending j) = Inr st \<and> \<not> terminal st)
   \<and> (\<forall>j. fst (instantPending j) = 0)
   \<and> waitForCompletion instantPending 300 = (Timeout, 150)"
proof -
  have z: "\<forall>j. fst (instantPending j) = 0" by (simp add: instantPending_def)
  from waitForCompletion_timeout[OF instantPending_nonterminal, of 300] z
  obtain n where "waitForCompletion instantPending 300 = (Timeout, n)"
    "n = (300 * 1000 + (pollInterval - 1)) div pollInterval" by blast
  then have "waitForCompletion instantPending 300 = (Timeout, 150)"
    by (simp add: pollInterval_def)
  with z instantPending_nonterminal show ?thesis by blast
qed

subsection \<open>Batch rendering\<close>







subsection \<open>Credential stores\<close>

text \<open>
  C5 (as stated, refuted). Neither key lookup of the code follows the order environment
  override, active profile's key, legacy config field. With \<open>CANVELETE_API_KEY\<close> set and
  \<open>prod\<close> active, \<open>getProfileApiKey\<close> returns prod's key, not the override. And
  \<open>getApiKey\<close> never reads the profile store: after \<open>profiles use prod\<close> followed by a
  login that stores another key, it returns that key although prod is active and has one.
\<close>

theorem getEffectiveApiKey_order_counterexample:
  "getProfileApiKey ((snd (profilesUse ''prod'' prodStore))\<lparr>envApiKey := Some ''cvt_env''\<rparr>)
     = ''cvt_prod''
   \<and> getEffectiveApiKey_spec ((snd (profilesUse ''prod'' prodStore))\<lparr>envApiKey := Some ''cvt_env''\<rparr>)
     = ''cvt_env''
   \<and> getApiKey (setApiKey ''cvt_other'' (snd (profilesUse ''prod'' prodStore))) = ''cvt_other''
   \<and> getEffectiveApiKey_spec (setApiKey ''cvt_other'' (snd (profilesUse ''prod'' prodStore)))
     = ''cvt_prod''"
  by (simp add: getProfileApiKey_def getEffectiveApiKey_spec_def getApiKey_def setApiKey_def
      profilesUse_def getProp_def prodStore_def prodProfile_def)

text \<open>
  C5 (amended). \<open>getApiKey\<close>, the lookup the client and \<open>requireAuth\<close> use, returns a
  non-empty environment override first and otherwise the config field; it does not read
  the profile store. \<open>getProfileApiKey\<close> returns the active profile's non-empty stored
  key first (even when an override is set) and otherwise what \<open>getApiKey\<close> returns.
  Whenever the config field holds the active profile's key, as a profile switch leaves
  it, \<open>getApiKey\<close> agrees with the order override, active profile's key, config field.
\<close>

theorem apiKey_resolution:
  "(\<forall>k. envApiKey s = Some k \<and> k \<noteq> [] \<longrightarrow> getApiKey s = k)
   \<and> (envApiKey s = None \<or> envApiKey s = Some [] \<longrightarrow> getApiKey s = configApiKey s)
   \<and> (\<forall>p. profiles s (activeProfile s) = Some p \<and> profile_apiKey p \<noteq> []
          \<longrightarrow> getProfileApiKey s = profile_apiKey p)
   \<and> ((\<forall>p. profiles s (activeProfile s) = Some p \<longrightarrow> profile_apiKey p = [])
          \<longrightarrow> getProfileApiKey s = getApiKey s)
   \<and> (cacheCoherent s \<longrightarrow> getApiKey s = getEffectiveApiKey_spec s)"
  by (auto simp add: getApiKey_def getProfileApiKey_def getProp_def getEffectiveApiKey_spec_def
      cacheCoherent_def split: option.splits)

theorem apiKey_resolution_witness:
  "envApiKey (prodStore\<lparr>envApiKey := Some ''cvt_env''\<rparr>) = Some ''cvt_env''
   \<and> getApiKey (prodStore\<lparr>envApiKey := Some ''cvt_env''\<rparr>) = ''cvt_env''
   \<and> envApiKey prodStore = None \<and> getApiKey prodStore = ''cvt_legacy''
   \<and> profiles (snd (profilesUse ''prod'' prodStore))
        (activeProfile (snd (profilesUse ''prod'' prodStore))) = Some prodProfile
   \<and> getProfileApiKey (snd (profilesUse ''prod'' prodStore)) = ''cvt_prod''
   \<and> getProfileApiKey prodStore = getApiKey prodStore
   \<and> cacheCoherent (snd (profilesUse ''prod'' prodStore))
   \<and> getApiKey (snd (profilesUse ''prod'' prodStore))
       = getEffectiveApiKey_spec (snd (profilesUse ''prod'' prodStore))"
proof -
  let ?e = "prodStore\<lparr>envApiKey := Some ''cvt_env''\<rparr>"
  let ?u = "snd (profilesUse ''prod'' prodStore)"
  have e: "envApiKey ?e = Some ''cvt_env''" by simp
  have n: "envApiKey prodStore = None" by (simp add: prodStore_def)
  have d: "profiles prodStore (activeProfile prodStore) = None" by (simp add: prodStore_def)
  have u: "profiles ?u (activeProfile ?u) = Some prodProfile"
    by (simp add: prodStore_def profilesUse_def getProp_def setApiKey_def)
  have k: "profile_apiKey prodProfile = ''cvt_prod''" by (simp add: prodProfile_def)
  have c: "cacheCoherent ?u"
    by (simp add: cacheCoherent_def prodStore_def profilesUse_def getProp_def setApiKey_def)
  have "getApiKey ?e = ''cvt_env''" using apiKey_resolution[of ?e] e by simp
  moreover have "getApiKey prodStore = ''cvt_legacy''"
    using apiKey_resolution[of prodStore] n by (simp add: prodStore_def)
  moreover have "getProfileApiKey ?u = ''cvt_prod''"
    using apiKey_resolution[of ?u] u k by simp
  moreover have "getProfileApiKey prodStore = getApiKey prodStore"
    using apiKey_resolution[of prodStore] d by simp
  moreover have "getApiKey ?u = getEffectiveApiKey_spec ?u"
    using apiKey_resolution[of ?u] c by simp
  ultimately show ?thesis using e n u c by simp
qed

lemma profilesUse_existing:
  assumes "profiles s name = Some p"
  shows "fst (profilesUse name s) = None"
    and "activeProfile (snd (profilesUse name s)) = name"
    and "profiles (snd (profilesUse name s)) = profiles s"
    and "envApiKey s = None \<Longrightarrow> getApiKey (snd (profilesUse name s)) = profile_apiKey p"
    and "envApiKey s = None \<Longrightarrow> getProfileApiKey (snd (profilesUse name s)) = profile_apiKey p"
  using assms
  by (simp_all add: profilesUse_def getProp_def setApiKey_def getApiKey_def getProfileApiKey_def)

lemma profilesUse_absent:
  "profiles s name = None \<Longrightarrow> name \<notin> set objectPrototypeKeys \<Longrightarrow>
   profilesUse name s = (Some (NotFound name), s)"
  by (simp add: profilesUse_def getProp_def)

text \<open>
  C6 (the code at the failing input). \<open>profiles use constructor\<close> on a fresh
  installation, where no profile of that name is stored: \<open>allProfiles['constructor']\<close> is
  the inherited \<open>Object\<close> function, so the not-found check passes, no \<open>NotFound\<close> is
  raised, and the active-profile pointer is overwritten.
\<close>

theorem profilesUse_inherited_name:
  "profiles freshStore ''constructor'' = None
   \<and> profilesUse ''constructor'' freshStore
       = (Some SetUndefined, freshStore\<lparr>activeProfile := ''constructor''\<rparr>)
   \<and> fst (profilesUse ''constructor'' freshStore) \<noteq> Some (NotFound ''constructor'')
   \<and> activeProfile (snd (profilesUse ''constructor'' freshStore)) \<noteq> activeProfile freshStore"
  by (simp add: profilesUse_def getProp_def freshStore_def objectPrototypeKeys_def)

subsection \<open>Directory watch\<close>

lemma endsWith_append: "endsWith s suffix \<longleftrightarrow> (\<exists>a. s = a @ suffix)"
proof
  assume "endsWith s suffix"
  then have "s = take (length s - length suffix) s @ suffix"
    by (metis append_take_drop_id endsWith_def)
  then show "\<exists>a. s = a @ suffix" ..
next
  assume "\<exists>a. s = a @ suffix"
  then show "endsWith s suffix" by (auto simp add: endsWith_def)
qed

lemma basename_json: "endsWith p ''.json'' \<Longrightarrow> endsWith (basename p) ''.json''"
proof -
  assume "endsWith p ''.json''"
  then obtain a where p: "p = a @ ''.json''" by (auto simp add: endsWith_append)
  have "basename p = rev (takeWhile (\<lambda>ch. ch \<noteq> CHR ''/'') (rev a)) @ ''.json''"
    by (simp add: basename_def p)
  then show ?thesis by (auto simp add: endsWith_append)
qed

lemma pathJoin_json: "endsWith f ''.json'' \<Longrightarrow> endsWith (pathJoin directory f) ''.json''"
  by (auto simp add: endsWith_append pathJoin_def)

lemma pathJoin_inj: "pathJoin directory f = pathJoin directory g \<Longrightarrow> f = g"
  by (simp add: pathJoin_def split: if_splits)

lemma processFile_new:
  "endsWith filePath ''.json'' \<Longrightarrow> filePath \<notin> processedFiles s \<Longrightarrow>
   processFile filePath s
     = s\<lparr>processedFiles := insert filePath (processedFiles s), started := started s @ [filePath]\<rparr>"
  by (simp add: processFile_def basename_json)

lemma processFile_inv:
  assumes "set (started s) = processedFiles s" "distinct (started s)"
  shows "set (started (processFile filePath s)) = processedFiles (processFile filePath s)"
    and "distinct (started (processFile filePath s))"
    and "\<exists>more. started (processFile filePath s) = started s @ more
           \<and> set more \<inter> set (started s) = {}"
  using assms by (auto simp add: processFile_def Let_def)

lemma startup_loop:
  assumes "set (started s) = processedFiles s"
    and "\<forall>file \<in> set files. endsWith file ''.json'' \<and> file \<notin> processedFiles s"
    and "distinct files"
  shows "started (foldl (\<lambda>s file. processFile file s) s files) = started s @ files
       \<and> processedFiles (foldl (\<lambda>s file. processFile file s) s files)
           = processedFiles s \<union> set files"
  using assms
proof (induction files arbitrary: s)
  case Nil
  then show ?case by simp
next
  case (Cons path files)
  let ?s = "processFile path s"
  from Cons.prems have new: "?s = s\<lparr>processedFiles := insert path (processedFiles s),
                                     started := started s @ [path]\<rparr>"
    by (simp add: processFile_new)
  with Cons.prems have
    "set (started ?s) = processedFiles ?s"
    "\<forall>f \<in> set files. endsWith f ''.json'' \<and> f \<notin> processedFiles ?s"
    "distinct files"
    by auto
  from Cons.IH[OF this] new show ?case by simp
qed

lemma startup_started:
  assumes "distinct listing"
  shows "started (startup directory listing) = existingFiles directory listing"
    and "processedFiles (startup directory listing) = set (existingFiles directory listing)"
proof -
  have d: "distinct (existingFiles directory listing)"
    unfolding existingFiles_def using assms
    by (simp add: distinct_map inj_on_def pathJoin_inj)
  have j: "\<forall>file \<in> set (existingFiles directory listing).
             endsWith file ''.json'' \<and> file \<notin> processedFiles \<lparr>processedFiles = {}, started = []\<rparr>"
    by (auto simp add: existingFiles_def pathJoin_json)
  from startup_loop[OF _ j d]
  show "started (startup directory listing) = existingFiles directory listing"
    and "processedFiles (startup directory listing) = set (existingFiles directory listing)"
    by (simp_all add: startup_def)
qed

lemma onDirEvent_cases:
  "onDirEvent directory ev s = s
   \<or> (\<exists>filename. onDirEvent directory ev s = processFile (pathJoin directory filename) s)"
  by (auto simp add: onDirEvent_def Let_def split: option.splits)

lemma onDirEvent_inv:
  assumes "set (started s) = processedFiles s" "distinct (started s)"
  shows "set (started (onDirEvent directory ev s)) = processedFiles (onDirEvent directory ev s)
       \<and> distinct (started (onDirEvent directory ev s))
       \<and> (\<exists>more. started (onDirEvent directory ev s) = started s @ more
                \<and> set more \<inter> set (started s) = {})"
proof -
  from onDirEvent_cases[of directory ev s] show ?thesis
  proof
    assume "onDirEvent directory ev s = s"
    with assms show ?thesis by simp
  next
    assume "\<exists>filename. onDirEvent directory ev s = processFile (pathJoin directory filename) s"
    then obtain filename where
      "onDirEvent directory ev s = processFile (pathJoin directory filename) s" ..
    with processFile_inv[OF assms, of "pathJoin directory filename"] show ?thesis by simp
  qed
qed

lemma events_loop:
  assumes "set (started s) = processedFiles s" "distinct (started s)"
  shows "distinct (started (foldl (\<lambda>s ev. onDirEvent directory ev s) s events))
       \<and> (\<exists>later. started (foldl (\<lambda>s ev. onDirEvent directory ev s) s events)
                     = started s @ later \<and> set later \<inter> set (started s) = {})"
  using assms
proof (induction events arbitrary: s)
  case Nil
  then show ?case by simp
next
  case (Cons ev events)
  let ?s = "onDirEvent directory ev s"
  from onDirEvent_inv[OF Cons.prems, of directory ev] obtain more where
    i: "set (started ?s) = processedFiles ?s" "distinct (started ?s)"
    and m: "started ?s = started s @ more" "set more \<inter> set (started s) = {}"
    by blast
  from Cons.IH[OF i] obtain later where
    l: "distinct (started (foldl (\<lambda>s ev. onDirEvent directory ev s) ?s events))"
       "started (foldl (\<lambda>s ev. onDirEvent directory ev s) ?s events) = started ?s @ later"
       "set later \<inter> set (started ?s) = {}"
    by blast
  from l(2) m(1) have
    "started (foldl (\<lambda>s ev. onDirEvent directory ev s) s (ev # events))
       = started s @ (more @ later)" by simp
  moreover from l(3) m have "set (more @ later) \<inter> set (started s) = {}" by auto
  ultimately show ?case using l(1) by auto
qed

text \<open>
  C8. In directory-watch mode, with \<open>listing\<close> the (duplicate-free) directory listing read
  at startup: the startup pass processes exactly the \<open>.json\<close> entries, each once, in the
  order of the listing; whatever file events follow, the processing log begins with that
  startup pass, everything an event triggers comes after it and is a path not processed
  before, and no path occurs twice in the log.
\<close>

theorem watchDir_startup_once:
  assumes "distinct listing"
  shows "started (startup directory listing)
           = map (pathJoin directory) (filter (\<lambda>f. endsWith f ''.json'') listing)
       \<and> distinct (started (startup directory listing))
       \<and> distinct (started (watchDir directory listing events))
       \<and> (\<exists>later. started (watchDir directory listing events)
                     = started (startup directory listing) @ later
                 \<and> set later \<inter> set (started (startup directory listing)) = {})"
proof -
  have d: "distinct (existingFiles directory listing)"
    unfolding existingFiles_def using assms
    by (simp add: distinct_map inj_on_def pathJoin_inj)
  have i: "set (started (startup directory listing)) = processedFiles (startup directory listing)"
    "distinct (started (startup directory listing))"
    using d by (simp_all add: startup_started[OF assms])
  from events_loop[OF i, of directory events] i(2) show ?thesis
    by (simp add: watchDir_def startup_started(1)[OF assms] existingFiles_def)
qed

theorem watchDir_startup_once_witness:
  "distinct [''b.json'', ''notes.txt'', ''a.json'']
   \<and> started (startup ''in'' [''b.json'', ''notes.txt'', ''a.json'']) = [''in/b.json'', ''in/a.json'']
   \<and> started (watchDir ''in'' [''b.json'', ''notes.txt'', ''a.json'']
                [(Some ''a.json'', True), (Some ''c.json'', True), (Some ''c.json'', True)])
       = [''in/b.json'', ''in/a.json'', ''in/c.json'']"
proof -
  have d: "distinct [''b.json'', ''notes.txt'', ''a.json'']" by simp
  have e: "endsWith ''b.json'' ''.json''" "endsWith ''a.json'' ''.json''"
    "\<not> endsWith ''notes.txt'' ''.json''" "endsWith ''c.json'' ''.json''"
    by (simp_all add: endsWith_def)
  from watchDir_startup_once[OF d, of "''in''"] e
  have s: "started (startup ''in'' [''b.json'', ''notes.txt'', ''a.json''])
             = [''in/b.json'', ''in/a.json'']"
    by (simp add: pathJoin_def)
  have p: "processedFiles (startup ''in'' [''b.json'', ''notes.txt'', ''a.json''])
             = {''in/b.json'', ''in/a.json''}"
    using startup_started(2)[OF d, of "''in''"] e by (auto simp add: existingFiles_def pathJoin_def)
  have j: "endsWith ''in/c.json'' ''.json''" by (simp add: endsWith_def)
  have "started (watchDir ''in'' [''b.json'', ''notes.txt'', ''a.json'']
                [(Some ''a.json'', True), (Some ''c.json'', True), (Some ''c.json'', True)])
       = [''in/b.json'', ''in/a.json'', ''in/c.json'']"
    by (simp add: watchDir_def onDirEvent_def e pathJoin_def processFile_def[of "''in/a.json''"]
        basename_json[OF j] p s processFile_def[of "''in/c.json''"])
  with d s show ?thesis by simp
qed

subsection \<open>Watch session\<close>

lemma deliverResponses_fields [simp]:
  "now (deliverResponses s) = now s"
  "fileContent (deliverResponses s) = fileContent s"
  "debounceTimer (deliverResponses s) = debounceTimer s"
  "timers (deliverResponses s) = timers s"
  "reads (deliverResponses s) = reads s"
  "inflight (deliverResponses s) = filter (\<lambda>r. \<not> fst r \<le> now s) (inflight s)"
  by (simp_all add: deliverResponses_def)

lemma watchRender_fields [simp]:
  "now (watchRender env s) = now s"
  "fileContent (watchRender env s) = fileContent s"
  "debounceTimer (watchRender env s) = debounceTimer s"
  "timers (watchRender env s) = timers s"
  "reads (watchRender env s) = reads s @ [fileContent s]"
  by (simp_all add: watchRender_def Let_def)

lemma fireTimers_none:
  "\<forall>tm \<in> set (timers s). now s < snd tm \<Longrightarrow> fireTimers env s = s"
proof -
  assume a: "\<forall>tm \<in> set (timers s). now s < snd tm"
  then have "filter (\<lambda>tm. snd tm \<le> now s) (timers s) = []"
    by (auto simp add: filter_empty_conv)
  moreover from a have "filter (\<lambda>tm. \<not> snd tm \<le> now s) (timers s) = timers s"
    by (auto simp add: filter_id_conv)
  ultimately show ?thesis by (simp add: fireTimers_def)
qed

lemma fireTimers_one:
  "timers s = [(h, due)] \<Longrightarrow> due \<le> now s \<Longrightarrow>
   fireTimers env s = watchRender env (s\<lparr>timers := []\<rparr>)"
  by (simp add: fireTimers_def)

lemma tick_idle:
  "\<forall>tm \<in> set (timers s). Suc (now s) < snd tm \<Longrightarrow>
   tick env s = deliverResponses (s\<lparr>now := Suc (now s)\<rparr>)"
  by (simp add: tick_def fireTimers_none)

lemma tick_fire:
  "timers s = [(h, due)] \<Longrightarrow> due \<le> Suc (now s) \<Longrightarrow>
   tick env s = deliverResponses (watchRender env (s\<lparr>now := Suc (now s), timers := []\<rparr>))"
  by (simp add: tick_def fireTimers_one)

lemma watchCallback_change:
  assumes "\<forall>tm \<in> set (timers s). debounceTimer s = Some (fst tm)"
  shows "watchCallback debounceMs ''change'' s
           = s\<lparr>timers := [(nextHandle s, now s + timerDelay debounceMs)],
               nextHandle := nextHandle s + 1,
               debounceTimer := Some (nextHandle s)\<rparr>"
proof (cases "debounceTimer s")
  case None
  with assms have "timers s = []" by (cases "timers s") auto
  with None show ?thesis by (simp add: watchCallback_def setTimeout_def Let_def)
next
  case (Some h)
  with assms have "filter (\<lambda>tm. fst tm \<noteq> h) (timers s) = []"
    by (auto simp add: filter_empty_conv)
  with Some show ?thesis
    by (simp add: watchCallback_def setTimeout_def clearTimeout_def Let_def)
qed

lemma watchRun_append:
  "watchRun env d (xs @ ys) s = watchRun env d ys (watchRun env d xs s)"
  by (simp add: watchRun_def)

lemma watchRun_Cons:
  "watchRun env d (x # xs) s = watchRun env d xs (watchStep env d s x)"
  by (simp add: watchRun_def)

lemma watchRun_Nil: "watchRun env d [] s = s"
  by (simp add: watchRun_def)

lemma idle_ticks:
  "timers s = [] \<Longrightarrow> reads (watchRun env d (replicate k Tick) s) = reads s"
proof (induction k arbitrary: s)
  case 0
  then show ?case by (simp add: watchRun_Nil)
next
  case (Suc k)
  from Suc.prems have t: "tick env s = deliverResponses (s\<lparr>now := Suc (now s)\<rparr>)"
    by (simp add: tick_idle)
  with Suc.prems have "timers (tick env s) = []" by simp
  from Suc.IH[OF this] t show ?case by (simp add: watchRun_Cons)
qed

lemma armed_ticks:
  "timers s = [(h, due)] \<Longrightarrow> now s < due \<Longrightarrow>
   reads (watchRun env d (replicate k Tick) s)
     = (if now s + k < due then reads s else reads s @ [fileContent s])"
proof (induction k arbitrary: s)
  case 0
  then show ?case by (simp add: watchRun_Nil)
next
  case (Suc k)
  show ?case
  proof (cases "Suc (now s) < due")
    case True
    with Suc.prems have t: "tick env s = deliverResponses (s\<lparr>now := Suc (now s)\<rparr>)"
      by (simp add: tick_idle)
    with Suc.prems True have "timers (tick env s) = [(h, due)]" "now (tick env s) < due"
      by simp_all
    from Suc.IH[OF this] t show ?thesis by (simp add: watchRun_Cons)
  next
    case False
    with Suc.prems have
      t: "tick env s = deliverResponses (watchRender env (s\<lparr>now := Suc (now s), timers := []\<rparr>))"
      by (simp add: tick_fire)
    then have "timers (tick env s) = []" by simp
    from idle_ticks[OF this, of env d k] t False show ?thesis by (simp add: watchRun_Cons)
  qed
qed

lemma burst_keeps_timer_armed:
  "\<forall>inp \<in> set pre. inp = Tick \<or> isChange inp \<Longrightarrow>
   length (filter (\<lambda>inp. inp = Tick) pre) < timerDelay d \<Longrightarrow>
   \<forall>tm \<in> set (timers s).
      debounceTimer s = Some (fst tm) \<and> now s + length (filter (\<lambda>inp. inp = Tick) pre) < snd tm \<Longrightarrow>
   reads (watchRun env d pre s) = reads s
   \<and> (\<forall>tm \<in> set (timers (watchRun env d pre s)).
         debounceTimer (watchRun env d pre s) = Some (fst tm))"
proof (induction pre arbitrary: s)
  case Nil
  then show ?case by (simp add: watchRun_Nil)
next
  case (Cons inp pre)
  show ?case
  proof (cases inp)
    case Tick
    with Cons.prems have "\<forall>tm \<in> set (timers s). Suc (now s) < snd tm" by auto
    then have t: "tick env s = deliverResponses (s\<lparr>now := Suc (now s)\<rparr>)"
      by (simp add: tick_idle)
    from Cons.prems Tick have
      "\<forall>inp \<in> set pre. inp = Tick \<or> isChange inp"
      "length (filter (\<lambda>inp. inp = Tick) pre) < timerDelay d"
      "\<forall>tm \<in> set (timers (tick env s)).
          debounceTimer (tick env s) = Some (fst tm)
          \<and> now (tick env s) + length (filter (\<lambda>inp. inp = Tick) pre) < snd tm"
      by (auto simp add: t)
    from Cons.IH[OF this] Tick t show ?thesis by (simp add: watchRun_Cons)
  next
    case (FsEvent eventType content)
    with Cons.prems have ch: "eventType = ''change''" by (auto simp add: isChange_def)
    let ?s = "watchStep env d s inp"
    from Cons.prems have "\<forall>tm \<in> set (timers (s\<lparr>fileContent := content\<rparr>)).
        debounceTimer (s\<lparr>fileContent := content\<rparr>) = Some (fst tm)" by simp
    from watchCallback_change[OF this, of d] FsEvent ch have
      s': "?s = s\<lparr>fileContent := content,
                  timers := [(nextHandle s, now s + timerDelay d)],
                  nextHandle := nextHandle s + 1,
                  debounceTimer := Some (nextHandle s)\<rparr>"
      by simp
    from Cons.prems FsEvent have
      "\<forall>inp \<in> set pre. inp = Tick \<or> isChange inp"
      "length (filter (\<lambda>inp. inp = Tick) pre) < timerDelay d"
      by auto
    moreover from this(2) have "\<forall>tm \<in> set (timers ?s).
          debounceTimer ?s = Some (fst tm)
          \<and> now ?s + length (filter (\<lambda>inp. inp = Tick) pre) < snd tm"
      by (simp add: s')
    ultimately have "reads (watchRun env d pre ?s) = reads ?s
       \<and> (\<forall>tm \<in> set (timers (watchRun env d pre ?s)).
             debounceTimer (watchRun env d pre ?s) = Some (fst tm))"
      by (rule Cons.IH)
    then show ?thesis by (simp add: watchRun_Cons s')
  qed
qed

lemma watchStart_idle:
  "timers (watchStart env content) = []"
  "inflight (watchStart env content) = []"
  "reads (watchStart env content) = [content]"
  by (simp_all add: watchStart_def watchRender_def Let_def)

lemma fold_watchRender_fields:
  "timers (foldl (\<lambda>s' tm. watchRender env s') s xs) = timers s
   \<and> debounceTimer (foldl (\<lambda>s' tm. watchRender env s') s xs) = debounceTimer s
   \<and> now (foldl (\<lambda>s' tm. watchRender env s') s xs) = now s"
  by (induction xs arbitrary: s) simp_all

lemma fireTimers_fields:
  "timers (fireTimers env s) = filter (\<lambda>tm. \<not> snd tm \<le> now s) (timers s)"
  "debounceTimer (fireTimers env s) = debounceTimer s"
  "now (fireTimers env s) = now s"
  by (simp_all add: fireTimers_def fold_watchRender_fields)

lemma tick_timers:
  "timers (tick env s) = filter (\<lambda>tm. \<not> snd tm \<le> Suc (now s)) (timers s)"
  "debounceTimer (tick env s) = debounceTimer s"
  by (simp_all add: tick_def fireTimers_fields)

lemma watchStep_one_timer:
  assumes "length (timers s) \<le> 1" "\<forall>tm \<in> set (timers s). debounceTimer s = Some (fst tm)"
  shows "length (timers (watchStep env d s inp)) \<le> 1
       \<and> (\<forall>tm \<in> set (timers (watchStep env d s inp)).
             debounceTimer (watchStep env d s inp) = Some (fst tm))"
proof (cases inp)
  case Tick
  from assms(1) have "length (filter (\<lambda>tm. \<not> snd tm \<le> Suc (now s)) (timers s)) \<le> 1"
    by (rule le_trans[OF length_filter_le])
  with assms(2) Tick show ?thesis by (simp add: tick_timers)
next
  case (FsEvent eventType content)
  show ?thesis
  proof (cases "eventType = ''change''")
    case True
    from assms(2) have "\<forall>tm \<in> set (timers (s\<lparr>fileContent := content\<rparr>)).
        debounceTimer (s\<lparr>fileContent := content\<rparr>) = Some (fst tm)" by simp
    from watchCallback_change[OF this, of d] FsEvent True show ?thesis by simp
  next
    case False
    with assms FsEvent show ?thesis by (simp add: watchCallback_def)
  qed
qed

lemma watchRun_one_timer:
  "length (timers s) \<le> 1 \<Longrightarrow> \<forall>tm \<in> set (timers s). debounceTimer s = Some (fst tm) \<Longrightarrow>
   length (timers (watchRun env d inputs s)) \<le> 1
   \<and> (\<forall>tm \<in> set (timers (watchRun env d inputs s)).
         debounceTimer (watchRun env d inputs s) = Some (fst tm))"
proof (induction inputs arbitrary: s)
  case Nil
  then show ?case by (simp add: watchRun_Nil)
next
  case (Cons inp inputs)
  from watchStep_one_timer[OF Cons.prems, of env d inp] have
    "length (timers (watchStep env d s inp)) \<le> 1"
    "\<forall>tm \<in> set (timers (watchStep env d s inp)).
        debounceTimer (watchStep env d s inp) = Some (fst tm)"
    by simp_all
  from Cons.IH[OF this] show ?case by (simp add: watchRun_Cons)
qed

lemma reachable_one_timer:
  "length (timers (watchRun env d inputs (watchStart env content))) \<le> 1"
  "\<forall>tm \<in> set (timers (watchRun env d inputs (watchStart env content))).
      debounceTimer (watchRun env d inputs (watchStart env content)) = Some (fst tm)"
  using watchRun_one_timer[of "watchStart env content" env d inputs]
  by (simp_all add: watchStart_idle)

lemma burst_reads_nothing:
  assumes h: "\<forall>tm \<in> set (timers s). debounceTimer s = Some (fst tm)"
    and el: "\<forall>inp \<in> set pre. inp = Tick \<or> isChange inp"
    and tk: "length (filter (\<lambda>inp. inp = Tick) pre) < timerDelay d"
    and st: "timers s = [] \<or> pre = [] \<or> isChange (hd pre)"
  shows "reads (watchRun env d pre s) = reads s
       \<and> (\<forall>tm \<in> set (timers (watchRun env d pre s)).
             debounceTimer (watchRun env d pre s) = Some (fst tm))"
proof -
  consider (idle) "timers s = []" | (empty) "pre = []"
    | (event) "pre \<noteq> []" "isChange (hd pre)"
    using st by blast
  then show ?thesis
  proof cases
    case idle
    then have "\<forall>tm \<in> set (timers s). debounceTimer s = Some (fst tm)
        \<and> now s + length (filter (\<lambda>inp. inp = Tick) pre) < snd tm" by simp
    from burst_keeps_timer_armed[OF el tk this] show ?thesis .
  next
    case empty
    with h show ?thesis by (simp add: watchRun_Nil)
  next
    case event
    then obtain eventType content pre' where
      pre: "pre = FsEvent eventType content # pre'" and ch: "eventType = ''change''"
      by (cases pre; cases "hd pre") (auto simp add: isChange_def)
    let ?s = "watchStep env d s (FsEvent eventType content)"
    from h have "\<forall>tm \<in> set (timers (s\<lparr>fileContent := content\<rparr>)).
        debounceTimer (s\<lparr>fileContent := content\<rparr>) = Some (fst tm)" by simp
    from watchCallback_change[OF this, of d] ch have
      s': "watchCallback d eventType (s\<lparr>fileContent := content\<rparr>)
             = s\<lparr>fileContent := content,
                 timers := [(nextHandle s, now s + timerDelay d)],
                 nextHandle := nextHandle s + 1,
                 debounceTimer := Some (nextHandle s)\<rparr>"
      by simp
    from el tk pre have
      "\<forall>inp \<in> set pre'. inp = Tick \<or> isChange inp"
      "length (filter (\<lambda>inp. inp = Tick) pre') < timerDelay d"
      by simp_all
    moreover from this(2) have "\<forall>tm \<in> set (timers ?s).
          debounceTimer ?s = Some (fst tm)
          \<and> now ?s + length (filter (\<lambda>inp. inp = Tick) pre') < snd tm"
      by (simp add: s')
    ultimately have "reads (watchRun env d pre' ?s) = reads ?s
       \<and> (\<forall>tm \<in> set (timers (watchRun env d pre' ?s)).
             debounceTimer (watchRun env d pre' ?s) = Some (fst tm))"
      by (rule burst_keeps_timer_armed)
    then show ?thesis by (simp add: pre watchRun_Cons s')
  qed
qed

lemma burst_then_one_render:
  assumes h: "\<forall>tm \<in> set (timers s). debounceTimer s = Some (fst tm)"
    and el: "\<forall>inp \<in> set pre. inp = Tick \<or> isChange inp"
    and tk: "length (filter (\<lambda>inp. inp = Tick) pre) < timerDelay d"
    and st: "timers s = [] \<or> pre = [] \<or> isChange (hd pre)"
  shows "reads (watchRun env d (pre @ [FsEvent ''change'' content] @ replicate k Tick) s)
           = (if k < timerDelay d then reads s else reads s @ [content])"
proof -
  let ?s1 = "watchRun env d pre s"
  from burst_reads_nothing[OF h el tk st, of env] have
    r1: "reads ?s1 = reads s" and
    t1: "\<forall>tm \<in> set (timers ?s1). debounceTimer ?s1 = Some (fst tm)"
    by simp_all
  let ?s2 = "watchStep env d ?s1 (FsEvent ''change'' content)"
  from t1 have "\<forall>tm \<in> set (timers (?s1\<lparr>fileContent := content\<rparr>)).
        debounceTimer (?s1\<lparr>fileContent := content\<rparr>) = Some (fst tm)" by simp
  from watchCallback_change[OF this, of d] have
    s2: "?s2 = ?s1\<lparr>fileContent := content,
                 timers := [(nextHandle ?s1, now ?s1 + timerDelay d)],
                 nextHandle := nextHandle ?s1 + 1,
                 debounceTimer := Some (nextHandle ?s1)\<rparr>"
    by simp
  have pos: "0 < timerDelay d" by (simp add: timerDelay_def)
  from s2 pos have
    "timers ?s2 = [(nextHandle ?s1, now ?s1 + timerDelay d)]"
    "now ?s2 < now ?s1 + timerDelay d"
    by simp_all
  from armed_ticks[OF this, of env d k] s2 r1 have
    "reads (watchRun env d (replicate k Tick) ?s2)
       = (if k < timerDelay d then reads s else reads s @ [content])"
    by simp
  then show ?thesis by (simp add: watchRun_append watchRun_Cons)
qed

text \<open>
  C4 (as stated, refuted). With \<open>--debounce 2147483648\<close> the timer's delay is 1 ms: two
  change events 2 ms apart, a window far shorter than the debounce interval, fire two
  renders, and the first reads the content of the first event.
\<close>

theorem debounce_interval_overflow_counterexample:
  "reads (watchRun slowServer 2147483648
      [FsEvent ''change'' ''1'', Tick, Tick, FsEvent ''change'' ''2'', Tick]
      (watchStart slowServer ''{}''))
     = [''{}'', ''1'', ''2'']"
  by (simp add: watchRun_def watchStart_def watchRender_def deliverResponses_def tick_def
      fireTimers_def watchCallback_def setTimeout_def clearTimeout_def timerDelay_def
      slowServer_def Let_def)

text \<open>
  C4 (amended). Let the debounce interval be at most 2147483647 ms, and let N \<ge> 1 change
  events on the data file arrive within a window shorter than the interval, at any point
  \<open>history\<close> of a session: \<open>pre\<close> holds the events before the last one and the
  milliseconds that pass between them, and the burst starts at its first event or while
  no timer is armed. Then no render fires until the interval has passed after the last
  event, exactly one fires then, and it reads the content the file had at the last event.
\<close>

theorem debounce_single_render:
  assumes "debounceMs \<le> 2147483647"
    and "\<forall>inp \<in> set pre. inp = Tick \<or> isChange inp"
    and "length (filter (\<lambda>inp. inp = Tick) pre) < debounceMs"
    and "timers (watchRun env debounceMs history (watchStart env content0)) = []
         \<or> pre = [] \<or> isChange (hd pre)"
  shows "reads (watchRun env debounceMs
                 (history @ pre @ [FsEvent ''change'' content] @ replicate k Tick)
                 (watchStart env content0))
           = (if k < debounceMs
              then reads (watchRun env debounceMs history (watchStart env content0))
              else reads (watchRun env debounceMs history (watchStart env content0)) @ [content])"
proof -
  from assms(1,3) have d: "timerDelay debounceMs = debounceMs"
    by (simp add: timerDelay_def)
  from assms(3) d have tk: "length (filter (\<lambda>inp. inp = Tick) pre) < timerDelay debounceMs"
    by simp
  from burst_then_one_render[OF reachable_one_timer(2) assms(2) tk assms(4),
      of env content k] d
  show ?thesis by (simp add: watchRun_append)
qed

theorem debounce_single_render_witness:
  "(3::nat) \<le> 2147483647
   \<and> isChange (FsEvent ''change'' ''1'') \<and> isChange (FsEvent ''change'' ''2'')
   \<and> length (filter (\<lambda>inp. inp = Tick)
        [FsEvent ''change'' ''1'', Tick, FsEvent ''change'' ''2'', Tick]) < 3
   \<and> isChange (hd [FsEvent ''change'' ''1'', Tick, FsEvent ''change'' ''2'', Tick])
   \<and> reads (watchRun slowServer 3 [FsEvent ''change'' ''0'', Tick] (watchStart slowServer ''{}''))
       = [''{}'']
   \<and> reads (watchRun slowServer 3
        ([FsEvent ''change'' ''0'', Tick]
           @ [FsEvent ''change'' ''1'', Tick, FsEvent ''change'' ''2'', Tick]
           @ [FsEvent ''change'' ''3''] @ replicate 3 Tick)
        (watchStart slowServer ''{}'')) = [''{}'', ''3'']"
proof -
  have a: "(3::nat) \<le> 2147483647" by simp
  have b: "\<forall>inp \<in> set [FsEvent ''change'' ''1'', Tick, FsEvent ''change'' ''2'', Tick].
         inp = Tick \<or> isChange inp" by (simp add: isChange_def)
  have c: "length (filter (\<lambda>inp. inp = Tick)
        [FsEvent ''change'' ''1'', Tick, FsEvent ''change'' ''2'', Tick]) < 3"
    by simp
  have e: "isChange (hd [FsEvent ''change'' ''1'', Tick, FsEvent ''change'' ''2'', Tick])"
    by (simp add: isChange_def)
  then have f: "timers (watchRun slowServer 3 [FsEvent ''change'' ''0'', Tick]
                  (watchStart slowServer ''{}'')) = []
      \<or> [FsEvent ''change'' ''1'', Tick, FsEvent ''change'' ''2'', Tick] = []
      \<or> isChange (hd [FsEvent ''change'' ''1'', Tick, FsEvent ''change'' ''2'', Tick])"
    by blast
  have r: "reads (watchRun slowServer 3 [FsEvent ''change'' ''0'', Tick]
             (watchStart slowServer ''{}'')) = [''{}'']"
    by (simp add: watchRun_def watchStart_def watchRender_def deliverResponses_def tick_def
        fireTimers_def watchCallback_def setTimeout_def clearTimeout_def timerDelay_def
        slowServer_def Let_def)
  from debounce_single_render[OF a b c f, of "''3''" 3] r
  have "reads (watchRun slowServer 3
        ([FsEvent ''change'' ''0'', Tick]
           @ [FsEvent ''change'' ''1'', Tick, FsEvent ''change'' ''2'', Tick]
           @ [FsEvent ''change'' ''3''] @ replicate 3 Tick)
        (watchStart slowServer ''{}'')) = [''{}'', ''3'']"
    by simp
  with a c e r show ?thesis by (simp add: isChange_def)
qed

lemma watchInv_start:
  "0 < delay \<Longrightarrow> watchInv delay (watchStart env content)"
  by (simp add: watchInv_def watchStart_idle)

lemma watchInv_tick:
  assumes inv: "watchInv delay s" and fast: "\<forall>k. fst (network env k) < delay"
  shows "watchInv delay (tick env s)"
proof (cases "\<forall>tm \<in> set (timers s). Suc (now s) < snd tm")
  case True
  then have t: "tick env s = deliverResponses (s\<lparr>now := Suc (now s)\<rparr>)"
    by (simp add: tick_idle)
  from inv have "length (filter (\<lambda>r. \<not> fst r \<le> Suc (now s)) (inflight s)) \<le> 1"
    unfolding watchInv_def by (meson le_trans length_filter_le)
  with inv True show ?thesis
    unfolding watchInv_def t by (auto simp add: less_Suc_eq)
next
  case False
  then obtain h due where tm: "(h, due) \<in> set (timers s)" "\<not> Suc (now s) < due" by auto
  from inv have "length (timers s) \<le> 1" by (simp add: watchInv_def)
  with tm(1) have ts: "timers s = [(h, due)]"
    by (cases "timers s") auto
  from inv ts have due: "now s < due" by (simp add: watchInv_def)
  with tm(2) have d: "due = Suc (now s)" by simp
  have empty: "inflight s = []"
  proof (cases "inflight s")
    case Nil
    then show ?thesis .
  next
    case (Cons r rs)
    with inv ts have "now s < fst r" "fst r < due" by (simp_all add: watchInv_def)
    with d show ?thesis by simp
  qed
  from ts d have t: "tick env s
      = deliverResponses (watchRender env (s\<lparr>now := Suc (now s), timers := []\<rparr>))"
    by (simp add: tick_fire)
  from fast have "fst (network env (issued s)) < delay" by simp
  with empty show ?thesis
    unfolding watchInv_def t by (simp add: watchRender_def Let_def)
qed

lemma watchInv_event:
  assumes inv: "watchInv (timerDelay d) s"
  shows "watchInv (timerDelay d) (watchStep env d s (FsEvent eventType content))"
proof (cases "eventType = ''change''")
  case True
  from inv have "\<forall>tm \<in> set (timers (s\<lparr>fileContent := content\<rparr>)).
      debounceTimer (s\<lparr>fileContent := content\<rparr>) = Some (fst tm)"
    by (simp add: watchInv_def)
  from watchCallback_change[OF this, of d] True have
    s': "watchStep env d s (FsEvent eventType content)
           = s\<lparr>fileContent := content,
               timers := [(nextHandle s, now s + timerDelay d)],
               nextHandle := nextHandle s + 1,
               debounceTimer := Some (nextHandle s)\<rparr>"
    by simp
  have "0 < timerDelay d" by (simp add: timerDelay_def)
  with inv show ?thesis unfolding s' watchInv_def by simp
next
  case False
  with inv show ?thesis by (simp add: watchCallback_def watchInv_def)
qed

lemma watchInv_run:
  "watchInv (timerDelay d) s \<Longrightarrow> \<forall>k. fst (network env k) < timerDelay d \<Longrightarrow>
   watchInv (timerDelay d) (watchRun env d inputs s)"
proof (induction inputs arbitrary: s)
  case Nil
  then show ?case by (simp add: watchRun_Nil)
next
  case (Cons inp inputs)
  have "watchInv (timerDelay d) (watchStep env d s inp)"
  proof (cases inp)
    case Tick
    with watchInv_tick[OF Cons.prems] show ?thesis by simp
  next
    case (FsEvent eventType content)
    with watchInv_event[OF Cons.prems(1)] show ?thesis by simp
  qed
  from Cons.IH[OF this Cons.prems(2)] show ?case by (simp add: watchRun_Cons)
qed

text \<open>
  C1 (as stated, refuted). With \<open>--debounce 3\<close> and a server that answers each render
  after 10 ms: a change, 3 ms later the timer fires and a render starts; a second change,
  and 3 ms later the timer fires again. The second render starts at once: both renders
  are then in flight together (their responses are due at 23 and 26, the clock reads 16).
\<close>

theorem watch_concurrent_renders_counterexample:
  "inflight (watchRun slowServer 3
      [FsEvent ''change'' ''1'', Tick, Tick, Tick, FsEvent ''change'' ''2'', Tick, Tick, Tick]
      (watchStart slowServer ''{}''))
     = [(23, True), (26, True)]
   \<and> now (watchRun slowServer 3
      [FsEvent ''change'' ''1'', Tick, Tick, Tick, FsEvent ''change'' ''2'', Tick, Tick, Tick]
      (watchStart slowServer ''{}'')) = 16"
  by (simp add: watchRun_def watchStart_def watchRender_def deliverResponses_def tick_def
      fireTimers_def watchCallback_def setTimeout_def clearTimeout_def timerDelay_def
      slowServer_def Let_def)

text \<open>
  C1 (amended). In every watch session on a single data file: at most one debounce timer
  is armed at a time; \<open>render\<close> tests no rendering flag and defers or queues nothing:
  whenever it is called it reads the file, and when the content parses as JSON it issues
  its render request at once, one more render in flight however many there are; and no two
  renders for the target are in flight together when every render response arrives in
  less than the delay of the debounce timer, which is the debounce interval
  \<open>debounceMs\<close> when 1 \<le> \<open>debounceMs\<close> \<le> 2147483647 and 1 ms otherwise.
\<close>

theorem watch_renders_overlap_only_when_slow:
  "length (timers (watchRun env debounceMs inputs (watchStart env content))) \<le> 1
   \<and> reads (watchRender env s) = reads s @ [fileContent s]
   \<and> (validJson env (fileContent s) \<longrightarrow>
        length (inflight (watchRender env s)) = Suc (length (inflight s)))
   \<and> ((\<forall>k. fst (network env k) < timerDelay debounceMs) \<longrightarrow>
        length (inflight (watchRun env debounceMs inputs (watchStart env content))) \<le> 1)
   \<and> timerDelay debounceMs = (if 1 \<le> debounceMs \<and> debounceMs \<le> 2147483647 then debounceMs else 1)
   \<and> (1 \<le> debounceMs \<and> debounceMs \<le> 2147483647 \<and> (\<forall>k. fst (network env k) < debounceMs) \<longrightarrow>
        length (inflight (watchRun env debounceMs inputs (watchStart env content))) \<le> 1)"
proof -
  have a: "length (timers (watchRun env debounceMs inputs (watchStart env content))) \<le> 1"
    by (rule reachable_one_timer)
  have "0 < timerDelay debounceMs" by (simp add: timerDelay_def)
  then have "watchInv (timerDelay debounceMs) (watchStart env content)"
    by (rule watchInv_start)
  then have b: "(\<forall>k. fst (network env k) < timerDelay debounceMs) \<longrightarrow>
        length (inflight (watchRun env debounceMs inputs (watchStart env content))) \<le> 1"
    using watchInv_run[of debounceMs "watchStart env content" env inputs]
    by (simp add: watchInv_def)
  have c: "validJson env (fileContent s) \<longrightarrow>
        length (inflight (watchRender env s)) = Suc (length (inflight s))"
    by (simp add: watchRender_def Let_def)
  have d: "timerDelay debounceMs
             = (if 1 \<le> debounceMs \<and> debounceMs \<le> 2147483647 then debounceMs else 1)"
    by (auto simp add: timerDelay_def)
  from b d have e: "1 \<le> debounceMs \<and> debounceMs \<le> 2147483647
        \<and> (\<forall>k. fst (network env k) < debounceMs) \<longrightarrow>
        length (inflight (watchRun env debounceMs inputs (watchStart env content))) \<le> 1"
    by simp
  have r: "reads (watchRender env s) = reads s @ [fileContent s]" by simp
  from a r c b d e show ?thesis by blast
qed

theorem watch_renders_overlap_only_when_slow_witness:
  "(1::nat) \<le> 3 \<and> (3::nat) \<le> 2147483647 \<and> timerDelay 3 = 3
   \<and> (\<forall>k. fst (network fastServer k) < 3)
   \<and> length (inflight (watchRun fastServer 3
        [FsEvent ''change'' ''1'', Tick, Tick, Tick, FsEvent ''change'' ''2'', Tick, Tick, Tick]
        (watchStart fastServer ''{}''))) \<le> 1
   \<and> validJson fastServer (fileContent (watchStart fastServer ''{}''))
   \<and> length (inflight (watchRender fastServer (watchStart fastServer ''{}''))) = 1"
proof -
  have f: "\<forall>k. fst (network fastServer k) < 3"
    by (simp add: fastServer_def)
  have v: "validJson fastServer (fileContent (watchStart fastServer ''{}''))"
    by (simp add: fastServer_def)
  from watch_renders_overlap_only_when_slow[of fastServer 3
      "[FsEvent ''change'' ''1'', Tick, Tick, Tick, FsEvent ''change'' ''2'', Tick, Tick, Tick]"
      "''{}''" "watchStart fastServer ''{}''"] f v
  show ?thesis by (simp add: watchStart_idle)
qed

end
